theory Spec2Isabelle
  imports Complex_Main
begin

section \<open>Declarative Compute: the execution-strategy dispatcher\<close>

text \<open>
  A shallow embedding of \<^verbatim>\<open>include/declarative_compute.hpp\<close>: the configuration
  record, the result record, and the processors \<^verbatim>\<open>process_sequential\<close>,
  \<^verbatim>\<open>process_parallel\<close>, \<^verbatim>\<open>process_adaptive\<close> and the dispatcher \<^verbatim>\<open>process\<close>.

  Conventions of the embedding:
  \<^item> \<^verbatim>\<open>size_t\<close> values are natural numbers. The only additions in the code are
    \<^verbatim>\<open>i + chunk_size\<close> with \<^verbatim>\<open>i < input.size()\<close> and \<^verbatim>\<open>chunk_size \<le> input.size()\<close>
    (or \<^verbatim>\<open>chunk_size = 1\<close>); a vector's size is at most \<^verbatim>\<open>max_size() < 2^63\<close>, so
    no sum reaches \<^verbatim>\<open>2^64\<close> and wrap-around never happens. The one division,
    \<^verbatim>\<open>input.size() / result.threads_used\<close>, is undefined for a zero divisor in C++;
    the model returns \<open>Undefined_behaviour\<close> there instead of HOL's \<open>n div 0 = 0\<close>.
  \<^item> The user's callable either returns a value or throws. What it throws is either
    derived from \<^verbatim>\<open>std::exception\<close> (and carries the text of \<^verbatim>\<open>what()\<close>) or it is not;
    the \<^verbatim>\<open>catch (const std::exception&)\<close> clauses tell the two apart.
  \<^item> \<^verbatim>\<open>execution_time_ms\<close> is a wall-clock measurement in floating point and is left
    out of the result record. Failures of the platform (no memory, no thread) are not
    modelled.
\<close>

subsection \<open>Policies and configuration\<close>

datatype MemoryPolicy = Standard | Pooled | Preallocated | ZeroCopy

datatype ConcurrencyPolicy = Sequential | Parallel | Adaptive | ThreadPool

datatype SafetyPolicy = Minimal | StandardSafety | Guaranteed | ThreadSafe

record ProcessConfig =
  memory :: MemoryPolicy
  concurrency :: ConcurrencyPolicy
  safety :: SafetyPolicy
  max_threads :: nat
  chunk_size :: nat
  enable_logging :: bool

text \<open>
  The default member initialisers of \<^verbatim>\<open>ProcessConfig\<close>. The argument is the value of
  \<^verbatim>\<open>std::thread::hardware_concurrency()\<close>, which may be 0 when it is not computable.
\<close>

definition default_config :: "nat \<Rightarrow> ProcessConfig" where
  "default_config cores =
     \<lparr>memory = Standard, concurrency = Adaptive, safety = StandardSafety,
      max_threads = cores, chunk_size = 1000, enable_logging = False\<rparr>"

subsection \<open>Results, exceptions and outcomes\<close>

record 'b ProcessResult =
  results :: "'b list"
  items_processed :: nat
  threads_used :: nat
  memory_allocated :: nat
  success :: bool
  error_message :: string

text \<open>A default-constructed \<^verbatim>\<open>ProcessResult<T>\<close>.\<close>

definition new_result :: "'b ProcessResult" where
  "new_result =
     \<lparr>results = [], items_processed = 0, threads_used = 0, memory_allocated = 0,
      success = True, error_message = ''''\<rparr>"

datatype exn = Std_exception string | Other_exception

datatype 'b call = Value 'b | Throws exn

text \<open>
  What a call of a processor does: it returns a record, or an exception leaves it,
  or it runs into undefined behaviour.
\<close>

datatype 'r outcome = Returns 'r | Propagates exn | Undefined_behaviour

subsection \<open>Sequential processor\<close>

text \<open>
  The range-for loop of \<^verbatim>\<open>process_sequential\<close>: \<^verbatim>\<open>push_back(func(item))\<close> for each
  item in turn; the first throw ends the loop and leaves what was pushed so far.
\<close>

fun sequential_loop :: "('a \<Rightarrow> 'b call) \<Rightarrow> 'a list \<Rightarrow> 'b list \<Rightarrow> 'b list \<times> exn option" where
  "sequential_loop func [] out = (out, None)"
| "sequential_loop func (item # rest) out =
     (case func item of
        Value v \<Rightarrow> sequential_loop func rest (out @ [v])
      | Throws e \<Rightarrow> (out, Some e))"

definition process_sequential ::
  "'a list \<Rightarrow> ('a \<Rightarrow> 'b call) \<Rightarrow> ProcessConfig \<Rightarrow> 'b ProcessResult outcome" where
  "process_sequential input func config =
     (let result = new_result\<lparr>threads_used := 1\<rparr> in
      case sequential_loop func input (results result) of
        (out, None) \<Rightarrow>
          Returns (result\<lparr>results := out, items_processed := length input, success := True\<rparr>)
      | (out, Some (Std_exception what)) \<Rightarrow>
          Returns (result\<lparr>results := out, success := False, error_message := what\<rparr>)
      | (out, Some Other_exception) \<Rightarrow> Propagates Other_exception)"

subsection \<open>Parallel processor\<close>

text \<open>\<^verbatim>\<open>std::max(size_t(1), input.size() / result.threads_used)\<close>, for a non-zero divisor.\<close>

definition parallel_chunk_size :: "nat \<Rightarrow> nat \<Rightarrow> nat" where
  "parallel_chunk_size n w = max 1 (n div w)"

text \<open>
  The loop \<^verbatim>\<open>for (i = 0; i < input.size(); i += chunk_size)\<close> that launches one task per
  range \<^verbatim>\<open>[i, min(i + chunk_size, input.size()))\<close>: the list of the ranges, in launch order.
\<close>

function partition_loop :: "nat \<Rightarrow> nat \<Rightarrow> nat \<Rightarrow> (nat \<times> nat) list" where
  "partition_loop n w i =
     (if i < n
      then (i, min (i + parallel_chunk_size n w) n) # partition_loop n w (i + parallel_chunk_size n w)
      else [])"
  by pat_completeness auto
termination
  by (relation "measure (\<lambda>(n, w, i). n - i)") (auto simp: parallel_chunk_size_def)

declare partition_loop.simps [simp del]

text \<open>
  A task launched by \<^verbatim>\<open>std::async\<close> together with its future: it is at index \<open>j\<close> of its
  range \<open>[i, end)\<close>, or it has returned, or the exception thrown by the callable has been
  stored in the future's shared state.
\<close>

datatype task = Running nat nat | Finished | Stored exn

text \<open>
  One iteration of the task's loop \<^verbatim>\<open>for (j = i; j < end; ++j) result.results[j] = func(input[j])\<close>,
  on the shared output vector.
\<close>

fun task_step :: "('a \<Rightarrow> 'b call) \<Rightarrow> 'a list \<Rightarrow> 'b list \<times> task \<Rightarrow> 'b list \<times> task" where
  "task_step func input (out, Running j e) =
     (if j < e
      then (case func (input ! j) of
              Value v \<Rightarrow> (out[j := v], Running (Suc j) e)
            | Throws x \<Rightarrow> (out, Stored x))
      else (out, Finished))"
| "task_step func input (out, t) = (out, t)"

text \<open>The scheduler lets task \<open>k\<close> run for one iteration.\<close>

definition schedule_step ::
  "('a \<Rightarrow> 'b call) \<Rightarrow> 'a list \<Rightarrow> 'b list \<times> task list \<Rightarrow> nat \<Rightarrow> 'b list \<times> task list" where
  "schedule_step func input st k =
     (case st of (out, ts) \<Rightarrow>
        if k < length ts
        then (case task_step func input (out, ts ! k) of (out', t') \<Rightarrow> (out', ts[k := t']))
        else (out, ts))"

definition run_schedule ::
  "('a \<Rightarrow> 'b call) \<Rightarrow> 'a list \<Rightarrow> nat list \<Rightarrow> 'b list \<times> task list \<Rightarrow> 'b list \<times> task list" where
  "run_schedule func input sched st = foldl (schedule_step func input) st sched"

text \<open>A task runs until it has returned or thrown.\<close>

function task_run :: "('a \<Rightarrow> 'b call) \<Rightarrow> 'a list \<Rightarrow> 'b list \<times> task \<Rightarrow> 'b list \<times> task" where
  "task_run func input (out, Running j e) = task_run func input (task_step func input (out, Running j e))"
| "task_run func input (out, Finished) = (out, Finished)"
| "task_run func input (out, Stored x) = (out, Stored x)"
  by pat_completeness auto
termination
  by (relation "measure (\<lambda>(func, input, out, t). case t of Running j e \<Rightarrow> Suc (e - j) | _ \<Rightarrow> 0)")
     (auto split: call.splits)

text \<open>
  \<^verbatim>\<open>future.wait()\<close> on the \<open>k\<close>-th future blocks until task \<open>k\<close> is done. It does not
  rethrow a stored exception (only \<^verbatim>\<open>get()\<close> would).
\<close>

definition future_wait ::
  "('a \<Rightarrow> 'b call) \<Rightarrow> 'a list \<Rightarrow> 'b list \<times> task list \<Rightarrow> nat \<Rightarrow> 'b list \<times> task list" where
  "future_wait func input st k =
     (case st of (out, ts) \<Rightarrow>
        (case task_run func input (out, ts ! k) of (out', t') \<Rightarrow> (out', ts[k := t'])))"

definition wait_all_futures ::
  "('a \<Rightarrow> 'b call) \<Rightarrow> 'a list \<Rightarrow> 'b list \<times> task list \<Rightarrow> 'b list \<times> task list" where
  "wait_all_futures func input st = foldl (future_wait func input) st [0..<length (snd st)]"

text \<open>
  \<^verbatim>\<open>process_parallel\<close>. Two arguments are not in the source: \<open>dflt\<close> is the
  value-initialised \<^verbatim>\<open>OutputT()\<close> that \<^verbatim>\<open>resize\<close> fills the output with, and \<open>sched\<close>
  is the interleaving chosen by the operating system: the tasks take single iterations
  in the order of \<open>sched\<close>, and whatever is still running afterwards is completed by the
  waiting loop. Every complete interleaving of the tasks is one such \<open>sched\<close>. (The tasks
  are taken as all launched before the first iteration runs; they only write the output,
  whose elements are distinct objects for every \<^verbatim>\<open>std::vector<T>\<close> but \<^verbatim>\<open>vector<bool>\<close>.)

  The \<^verbatim>\<open>ThreadPool\<close> of \<open>threads_used\<close> workers is constructed and destroyed without a
  task ever being enqueued; it has no effect on the result. Nothing in the
  \<^verbatim>\<open>try\<close> block throws an exception of the callable, so the \<^verbatim>\<open>catch\<close> clause has no
  branch here.
\<close>

definition process_parallel ::
  "'a list \<Rightarrow> ('a \<Rightarrow> 'b call) \<Rightarrow> ProcessConfig \<Rightarrow> 'b \<Rightarrow> nat list \<Rightarrow> 'b ProcessResult outcome" where
  "process_parallel input func config dflt sched =
     (let result = new_result\<lparr>results := replicate (length input) dflt,
                              threads_used := min (max_threads config) (length input)\<rparr> in
      if threads_used result = 0 then Undefined_behaviour
      else
        let futures = map (\<lambda>(i, e). Running i e) (partition_loop (length input) (threads_used result) 0);
            (out, done) = wait_all_futures func input (run_schedule func input sched (results result, futures))
        in Returns (result\<lparr>results := out, items_processed := length input, success := True\<rparr>))"

subsection \<open>Adaptive processor and dispatcher\<close>

text \<open>The last argument is \<^verbatim>\<open>CORES = std::thread::hardware_concurrency()\<close>.\<close>

definition PARALLEL_THRESHOLD :: nat where
  "PARALLEL_THRESHOLD = 1000"

definition process_adaptive ::
  "'a list \<Rightarrow> ('a \<Rightarrow> 'b call) \<Rightarrow> ProcessConfig \<Rightarrow> 'b \<Rightarrow> nat list \<Rightarrow> nat \<Rightarrow> 'b ProcessResult outcome" where
  "process_adaptive input func config dflt sched cores =
     (if length input < PARALLEL_THRESHOLD then process_sequential input func config
      else if length input \<ge> PARALLEL_THRESHOLD \<and> cores > 1
           then process_parallel input func config dflt sched
      else process_sequential input func config)"

definition process ::
  "'a list \<Rightarrow> ProcessConfig \<Rightarrow> ('a \<Rightarrow> 'b call) \<Rightarrow> 'b \<Rightarrow> nat list \<Rightarrow> nat \<Rightarrow> 'b ProcessResult outcome" where
  "process input config func dflt sched cores =
     (case concurrency config of
        Sequential \<Rightarrow> process_sequential input func config
      | Parallel \<Rightarrow> process_parallel input func config dflt sched
      | ThreadPool \<Rightarrow> process_parallel input func config dflt sched
      | Adaptive \<Rightarrow> process_adaptive input func config dflt sched cores)"

text \<open>The overload without a configuration: \<^verbatim>\<open>ProcessConfig{}\<close>.\<close>

definition process_default ::
  "'a list \<Rightarrow> ('a \<Rightarrow> 'b call) \<Rightarrow> 'b \<Rightarrow> nat list \<Rightarrow> nat \<Rightarrow> 'b ProcessResult outcome" where
  "process_default input func dflt sched cores =
     process input (default_config cores) func dflt sched cores"

subsection \<open>The callables of the example program\<close>

text \<open>
  \<^verbatim>\<open>[](int x) { return x * x; }\<close> of \<^verbatim>\<open>example_basic\<close>. On the inputs used here the
  products stay below \<^verbatim>\<open>2^31\<close>, so \<^verbatim>\<open>int\<close> arithmetic does not overflow.
\<close>

definition square :: "int \<Rightarrow> int call" where
  "square x = Value (x * x)"

text \<open>
  The callable of \<^verbatim>\<open>example_error_handling\<close>: it throws
  \<^verbatim>\<open>std::runtime_error("Division by zero")\<close> at 0 and returns \<^verbatim>\<open>100.0 / x\<close> otherwise.
  The quotient is taken in the reals; the program's \<^verbatim>\<open>double\<close> is the nearest
  representable number.
\<close>

definition hundred_over :: "int \<Rightarrow> real call" where
  "hundred_over x =
     (if x = 0 then Throws (Std_exception ''Division by zero'') else Value (100 / of_int x))"

subsection \<open>Vocabulary of the proofs about the parallel processor\<close>

text \<open>
  The indices a task has still to write; what one task may do to the output when every
  call of the callable returns (\<open>g\<close> gives the returned values); and the invariant of
  the shared state: every slot either holds its value or is still to be written by some task.
\<close>

fun pending :: "task \<Rightarrow> nat set" where
  "pending (Running j e) = {j..<e}"
| "pending Finished = {}"
| "pending (Stored x) = {}"

definition advances :: "('a \<Rightarrow> 'b) \<Rightarrow> 'a list \<Rightarrow> 'b list \<times> task \<Rightarrow> 'b list \<times> task \<Rightarrow> bool" where
  "advances g input s s' \<longleftrightarrow>
     length (fst s') = length (fst s)
     \<and> pending (snd s') \<subseteq> pending (snd s)
     \<and> (\<forall>i. i \<in> pending (snd s) \<and> i \<notin> pending (snd s') \<longrightarrow> fst s' ! i = g (input ! i))
     \<and> (\<forall>i. i \<notin> pending (snd s) \<longrightarrow> fst s' ! i = fst s ! i)"

definition placed :: "('a \<Rightarrow> 'b) \<Rightarrow> 'a list \<Rightarrow> 'b list \<times> task list \<Rightarrow> bool" where
  "placed g input st \<longleftrightarrow>
     length (fst st) = length input
     \<and> (\<forall>t \<in> set (snd st). pending t \<subseteq> {..<length input} \<and> (\<forall>x. t \<noteq> Stored x))
     \<and> (\<forall>i < length input. fst st ! i = g (input ! i) \<or> (\<exists>t \<in> set (snd st). i \<in> pending t))"

section \<open>The partitioner\<close>

lemma chunk_pos: "0 < parallel_chunk_size n w"
  by (simp add: parallel_chunk_size_def)

lemma below_ceiling_iff:
  fixes c :: nat
  assumes "0 < c"
  shows "k * c < n \<longleftrightarrow> k < (n + c - 1) div c"
proof -
  have "k < (n + c - 1) div c \<longleftrightarrow> Suc k \<le> (n + c - 1) div c" by auto
  also have "\<dots> \<longleftrightarrow> Suc k * c \<le> n + c - 1"
    using assms by (simp only: less_eq_div_iff_mult_less_eq)
  also have "\<dots> \<longleftrightarrow> k * c < n" using assms by auto
  finally show ?thesis by simp
qed

lemma partition_loop_closed_form:
  "i = k * parallel_chunk_size n w \<Longrightarrow>
   partition_loop n w i =
     map (\<lambda>k. (k * parallel_chunk_size n w, min ((k + 1) * parallel_chunk_size n w) n))
         [k..<(n + parallel_chunk_size n w - 1) div parallel_chunk_size n w]"
proof (induction n w i arbitrary: k rule: partition_loop.induct)
  case (1 n w i)
  let ?c = "parallel_chunk_size n w"
  show ?case
  proof (cases "i < n")
    case True
    with 1 have lt: "k < (n + ?c - 1) div ?c"
      using below_ceiling_iff [OF chunk_pos, of k n w] by simp
    have "partition_loop n w (i + ?c) =
        map (\<lambda>k. (k * ?c, min ((k + 1) * ?c) n)) [Suc k..<(n + ?c - 1) div ?c]"
      using 1(1) [OF True, of "Suc k"] 1(2) by (simp add: add.commute)
    then show ?thesis
      using True lt 1(2) by (subst partition_loop.simps) (simp add: upt_conv_Cons)
  next
    case False
    with 1 have "\<not> k < (n + ?c - 1) div ?c"
      using below_ceiling_iff [OF chunk_pos, of k n w] by simp
    then show ?thesis
      using False by (subst partition_loop.simps) simp
  qed
qed

lemma partition_loop_concat:
  "concat (map (\<lambda>(i, e). [i..<e]) (partition_loop n w i)) = [i..<n]"
proof (induction n w i rule: partition_loop.induct)
  case (1 n w i)
  let ?c = "parallel_chunk_size n w"
  show ?case
  proof (cases "i < n")
    case True
    note IH = 1 [OF True]
    show ?thesis
    proof (cases "i + ?c \<le> n")
      case True
      have "[i..<n] = [i..<i + ?c] @ [i + ?c..<n]"
        using True by (metis le_add1 upt_add_eq_append le_Suc_ex)
      then show ?thesis
        using \<open>i < n\<close> True IH by (subst partition_loop.simps) (simp add: min_def)
    next
      case False
      then show ?thesis
        using \<open>i < n\<close> IH by (subst partition_loop.simps) (simp add: min_def)
    qed
  next
    case False
    then show ?thesis by (subst partition_loop.simps) simp
  qed
qed

lemma partition_loop_nth:
  assumes "a < length (partition_loop n w 0)"
  shows "partition_loop n w 0 ! a =
           (a * parallel_chunk_size n w, min ((a + 1) * parallel_chunk_size n w) n)"
    and "a * parallel_chunk_size n w < n"
proof -
  let ?c = "parallel_chunk_size n w"
  have cf: "partition_loop n w 0 =
      map (\<lambda>k. (k * ?c, min ((k + 1) * ?c) n)) [0..<(n + ?c - 1) div ?c]"
    using partition_loop_closed_form [of 0 0 n w] by simp
  have a: "a < (n + ?c - 1) div ?c"
    using assms by (subst (asm) cf) simp
  show "partition_loop n w 0 ! a = (a * ?c, min ((a + 1) * ?c) n)"
    using a by (subst cf) simp
  show "a * ?c < n"
    using a below_ceiling_iff [OF chunk_pos, of a n w] by simp
qed

lemma partition_loop_disjoint:
  assumes "a < length (partition_loop n w 0)" "b < length (partition_loop n w 0)" "a < b"
  shows "{fst (partition_loop n w 0 ! a)..<snd (partition_loop n w 0 ! a)} \<inter>
         {fst (partition_loop n w 0 ! b)..<snd (partition_loop n w 0 ! b)} = {}"
proof -
  let ?c = "parallel_chunk_size n w"
  have "Suc a \<le> b" using assms(3) by simp
  then have "Suc a * ?c \<le> b * ?c" by (rule mult_le_mono1)
  then show ?thesis
    using partition_loop_nth(1) [OF assms(1)] partition_loop_nth(1) [OF assms(2)]
    by auto
qed

lemma partition_loop_5_2: "partition_loop 5 2 0 = [(0, 2), (2, 4), (4, 5)]"
  by (simp add: partition_loop.simps parallel_chunk_size_def)

lemma chunk_is_quotient:
  assumes "1 \<le> W" "W \<le> N"
  shows "parallel_chunk_size N W = N div W" "1 \<le> N div W"
proof -
  show "1 \<le> N div W"
    using assms by (simp add: Suc_le_eq div_greater_zero_iff)
  then show "parallel_chunk_size N W = N div W"
    by (simp add: parallel_chunk_size_def)
qed

lemma partition_loop_length:
  "length (partition_loop n w 0) =
     (n + parallel_chunk_size n w - 1) div parallel_chunk_size n w"
  using partition_loop_closed_form [of 0 0 n w] by simp

lemma partition_count:
  assumes "1 \<le> W" "W \<le> N"
  shows "length (partition_loop N W 0) = W + (N mod W + N div W - 1) div (N div W)"
proof -
  let ?c = "N div W"
  have c: "parallel_chunk_size N W = ?c" "1 \<le> ?c"
    using chunk_is_quotient [OF assms] by simp_all
  have e: "N + ?c - 1 = (N mod W + ?c - 1) + W * ?c"
    using c(2) mult_div_mod_eq [of W N] by simp
  have "?c \<noteq> 0" using c(2) by simp
  then have "((N mod W + ?c - 1) + W * ?c) div ?c = W + (N mod W + ?c - 1) div ?c"
    by (rule div_mult_self1)
  then have "(N + ?c - 1) div ?c = W + (N mod W + ?c - 1) div ?c"
    by (simp only: e)
  then show ?thesis
    by (simp add: partition_loop_length c(1))
qed

lemma partition_count_eq_iff:
  assumes "1 \<le> W" "W \<le> N"
  shows "length (partition_loop N W 0) = W \<longleftrightarrow> W dvd N"
proof -
  let ?c = "N div W"
  have c: "1 \<le> ?c" using chunk_is_quotient [OF assms] by simp
  have "(N mod W + ?c - 1) div ?c = 0 \<longleftrightarrow> N mod W = 0"
    using c by (auto simp: div_eq_0_iff)
  then show ?thesis
    using partition_count [OF assms] by (simp add: dvd_eq_mod_eq_0)
qed

lemma partition_last_end:
  assumes "1 \<le> N"
  shows "partition_loop N W 0 \<noteq> []" "snd (last (partition_loop N W 0)) = N"
proof -
  let ?c = "parallel_chunk_size N W"
  let ?m = "length (partition_loop N W 0)"
  have m: "?m = (N + ?c - 1) div ?c" by (rule partition_loop_length)
  have "0 * ?c < N" using assms by simp
  then have pos: "0 < ?m"
    using below_ceiling_iff [OF chunk_pos, of 0 N W] m by simp
  then show ne: "partition_loop N W 0 \<noteq> []" by auto
  have "\<not> ?m * ?c < N"
    using below_ceiling_iff [OF chunk_pos, of ?m N W] m by simp
  moreover have "(?m - 1 + 1) * ?c = ?m * ?c" using pos by simp
  ultimately have "snd (partition_loop N W 0 ! (?m - 1)) = N"
    using partition_loop_nth(1) [of "?m - 1" N W] pos by (simp add: min_def)
  then show "snd (last (partition_loop N W 0)) = N"
    using ne by (simp add: last_conv_nth)
qed

lemma partition_full_chunks:
  assumes "Suc k < length (partition_loop N W 0)"
  shows "snd (partition_loop N W 0 ! k) - fst (partition_loop N W 0 ! k) = parallel_chunk_size N W"
proof -
  let ?c = "parallel_chunk_size N W"
  have "Suc k * ?c < N"
    using partition_loop_nth(2) [OF assms] .
  moreover have "k < length (partition_loop N W 0)" using assms by simp
  ultimately show ?thesis
    using partition_loop_nth(1) [of k N W] by (simp add: min_def)
qed

lemma partition_loop_50_8:
  "partition_loop 50 8 0 =
     [(0, 6), (6, 12), (12, 18), (18, 24), (24, 30), (30, 36), (36, 42), (42, 48), (48, 50)]"
  by code_simp

text \<open>
  Claim C4. For every input length \<open>N \<ge> 0\<close> and worker count \<open>W \<ge> 1\<close>, the ranges that the
  parallel strategy launches tasks for are half-open index ranges which, concatenated in
  launch order, enumerate \<open>0, \<dots>, N - 1\<close> exactly once each (no gap, no overlap); any two
  of them are disjoint; and each is non-empty and stays within the input.
\<close>

theorem partition_exhaustiveness:
  assumes "1 \<le> W"
  shows "concat (map (\<lambda>(i, e). [i..<e]) (partition_loop N W 0)) = [0..<N]
       \<and> (\<forall>a < length (partition_loop N W 0). \<forall>b < length (partition_loop N W 0). a \<noteq> b \<longrightarrow>
            {fst (partition_loop N W 0 ! a)..<snd (partition_loop N W 0 ! a)} \<inter>
            {fst (partition_loop N W 0 ! b)..<snd (partition_loop N W 0 ! b)} = {})
       \<and> (\<forall>(i, e) \<in> set (partition_loop N W 0). i < e \<and> e \<le> N)"
proof (intro conjI allI impI)
  show "concat (map (\<lambda>(i, e). [i..<e]) (partition_loop N W 0)) = [0..<N]"
    by (rule partition_loop_concat)
next
  fix a b
  assume ab: "a < length (partition_loop N W 0)" "b < length (partition_loop N W 0)" "a \<noteq> b"
  show "{fst (partition_loop N W 0 ! a)..<snd (partition_loop N W 0 ! a)} \<inter>
        {fst (partition_loop N W 0 ! b)..<snd (partition_loop N W 0 ! b)} = {}"
  proof (cases "a < b")
    case True
    then show ?thesis using ab partition_loop_disjoint by blast
  next
    case False
    then have "b < a" using ab(3) by simp
    then have "{fst (partition_loop N W 0 ! b)..<snd (partition_loop N W 0 ! b)} \<inter>
               {fst (partition_loop N W 0 ! a)..<snd (partition_loop N W 0 ! a)} = {}"
      using ab partition_loop_disjoint by blast
    then show ?thesis by (simp only: Int_commute)
  qed
next
  show "\<forall>(i, e) \<in> set (partition_loop N W 0). i < e \<and> e \<le> N"
  proof (clarify)
    fix i e
    assume "(i, e) \<in> set (partition_loop N W 0)"
    then obtain a where a: "a < length (partition_loop N W 0)" "partition_loop N W 0 ! a = (i, e)"
      by (auto simp: in_set_conv_nth)
    have "0 < parallel_chunk_size N W" by (rule chunk_pos)
    then show "i < e \<and> e \<le> N"
      using partition_loop_nth [OF a(1)] a(2) by auto
  qed
qed


theorem partition_exhaustiveness_witness:
  "(1::nat) \<le> 2
   \<and> partition_loop 5 2 0 = [(0, 2), (2, 4), (4, 5)]
   \<and> concat (map (\<lambda>(i, e). [i..<e]) (partition_loop 5 2 0)) = [0..<5]
   \<and> {0..<2} \<inter> {4..<5} = ({} :: nat set)"
  using partition_exhaustiveness [of 2 5] partition_loop_5_2 by simp

text \<open>
  Claim C3 as stated fails: for input length 50 and \<open>max_threads = 8\<close> the worker count is
  8 and the chunk size is 6, but the loop launches 9 ranges, the last one being \<open>[48, 50)\<close>.
\<close>

theorem partition_count_counterexample:
  "min 8 50 = (8::nat) \<and> parallel_chunk_size 50 (min 8 50) = 6
   \<and> length (partition_loop 50 (min 8 50) 0) = 9
   \<and> last (partition_loop 50 (min 8 50) 0) = (48, 50)"
  by (simp add: partition_loop_50_8 parallel_chunk_size_def)

text \<open>
  Claim C3, amended. For every input length \<open>N \<ge> 1\<close> and \<open>max_threads \<ge> 1\<close>, with
  \<open>W = min(max_threads, N)\<close> and chunk size \<open>c = max(1, N / W) = N div W\<close>, the partitioner
  produces the contiguous ranges \<open>[k c, min((k + 1) c, N))\<close> for \<open>k < \<lceil>N / c\<rceil>\<close>. Their
  number is \<open>W + \<lceil>(N mod W) / c\<rceil>\<close>, which is \<open>W\<close> exactly when \<open>W\<close> divides \<open>N\<close>. Every
  range but the last has exactly \<open>c\<close> elements; the last ends at \<open>N\<close> and has between 1
  and \<open>c\<close> elements. For input length 50 with \<open>max_threads = 8\<close>: 8 workers, chunk size 6,
  and 9 ranges, eight of size 6 and then \<open>[48, 50)\<close>.
\<close>

theorem partition_shape:
  assumes "1 \<le> N" and "1 \<le> max_threads config"
    and "W = min (max_threads config) N" and "c = parallel_chunk_size N W"
  shows "c = N div W \<and> 1 \<le> c
       \<and> partition_loop N W 0 = map (\<lambda>k. (k * c, min ((k + 1) * c) N)) [0..<(N + c - 1) div c]
       \<and> length (partition_loop N W 0) = W + (N mod W + c - 1) div c
       \<and> (length (partition_loop N W 0) = W \<longleftrightarrow> W dvd N)
       \<and> (\<forall>k. Suc k < length (partition_loop N W 0) \<longrightarrow>
             snd (partition_loop N W 0 ! k) - fst (partition_loop N W 0 ! k) = c)
       \<and> snd (last (partition_loop N W 0)) = N
       \<and> 1 \<le> snd (last (partition_loop N W 0)) - fst (last (partition_loop N W 0))
       \<and> snd (last (partition_loop N W 0)) - fst (last (partition_loop N W 0)) \<le> c
       \<and> partition_loop 50 (min 8 50) 0 =
           [(0, 6), (6, 12), (12, 18), (18, 24), (24, 30), (30, 36), (36, 42), (42, 48), (48, 50)]"
proof -
  have W: "1 \<le> W" "W \<le> N" using assms(1,2,3) by simp_all
  have c: "c = N div W" "1 \<le> c"
    using chunk_is_quotient [OF W] assms(4) by simp_all
  have cf: "partition_loop N W 0 = map (\<lambda>k. (k * c, min ((k + 1) * c) N)) [0..<(N + c - 1) div c]"
    using partition_loop_closed_form [of 0 0 N W] assms(4) by simp
  have cnt: "length (partition_loop N W 0) = W + (N mod W + c - 1) div c"
    using partition_count [OF W] c(1) by simp
  have iff: "length (partition_loop N W 0) = W \<longleftrightarrow> W dvd N"
    by (rule partition_count_eq_iff [OF W])
  have full: "\<forall>k. Suc k < length (partition_loop N W 0) \<longrightarrow>
             snd (partition_loop N W 0 ! k) - fst (partition_loop N W 0 ! k) = c"
    using partition_full_chunks assms(4) by blast
  have ne: "partition_loop N W 0 \<noteq> []" and lastN: "snd (last (partition_loop N W 0)) = N"
    using partition_last_end [OF assms(1)] by simp_all
  let ?m = "length (partition_loop N W 0)"
  have m: "?m - 1 < ?m" using ne by simp
  have lst: "last (partition_loop N W 0) = ((?m - 1) * c, min ((?m - 1 + 1) * c) N)"
    using partition_loop_nth(1) [OF m] ne assms(4) by (simp add: last_conv_nth)
  have low: "(?m - 1) * c < N"
    using partition_loop_nth(2) [OF m] assms(4) by simp
  have size1: "1 \<le> snd (last (partition_loop N W 0)) - fst (last (partition_loop N W 0))"
    using lst low lastN by simp
  have size2: "snd (last (partition_loop N W 0)) - fst (last (partition_loop N W 0)) \<le> c"
    using lst by (auto simp: min_def)
  have ex: "partition_loop 50 (min 8 50) 0 =
           [(0, 6), (6, 12), (12, 18), (18, 24), (24, 30), (30, 36), (36, 42), (42, 48), (48, 50)]"
    by (simp add: partition_loop_50_8)
  show ?thesis
    using c cf cnt iff full lastN size1 size2 ex by blast
qed

theorem partition_shape_witness:
  "(1::nat) \<le> 50 \<and> 1 \<le> max_threads ((default_config 4)\<lparr>max_threads := 8\<rparr>)
   \<and> parallel_chunk_size 50 8 = 6
   \<and> length (partition_loop 50 8 0) = 8 + (50 mod 8 + 6 - 1) div 6
   \<and> length (partition_loop 50 8 0) = 9
   \<and> snd (last (partition_loop 50 8 0)) = 50
   \<and> snd (partition_loop 50 8 0 ! 0) - fst (partition_loop 50 8 0 ! 0) = 6"
proof -
  have a: "(1::nat) \<le> 50" and b: "1 \<le> max_threads ((default_config 4)\<lparr>max_threads := 8\<rparr>)"
    and w: "(8::nat) = min (max_threads ((default_config 4)\<lparr>max_threads := 8\<rparr>)) 50"
    and c: "(6::nat) = parallel_chunk_size 50 8"
    by (simp_all add: default_config_def parallel_chunk_size_def)
  show ?thesis
    using partition_shape [OF a b w c] a b c by (simp add: partition_loop_50_8)
qed

section \<open>The sequential processor\<close>

lemma sequential_loop_all_values:
  "\<forall>x \<in> set xs. func x = Value (g x) \<Longrightarrow> sequential_loop func xs out = (out @ map g xs, None)"
  by (induction xs arbitrary: out) auto

lemma sequential_loop_first_failure:
  assumes "k < length xs"
    and "\<forall>i < k. func (xs ! i) = Value (g (xs ! i))"
    and "func (xs ! k) = Throws e"
  shows "sequential_loop func xs out = (out @ map g (take k xs), Some e)"
  using assms
proof (induction xs arbitrary: out k)
  case Nil
  then show ?case by simp
next
  case (Cons x xs)
  show ?case
  proof (cases k)
    case 0
    with Cons.prems show ?thesis by simp
  next
    case (Suc k')
    have head: "func x = Value (g x)"
      using Cons.prems(2) Suc by fastforce
    have "\<forall>i < k'. func (xs ! i) = Value (g (xs ! i))"
      using Cons.prems(2) Suc by fastforce
    moreover have "k' < length xs" "func (xs ! k') = Throws e"
      using Cons.prems Suc by simp_all
    ultimately have "sequential_loop func xs (out @ [g x]) = ((out @ [g x]) @ map g (take k' xs), Some e)"
      using Cons.IH by blast
    then show ?thesis using head Suc by simp
  qed
qed

lemma sequential_loop_length:
  "sequential_loop func xs out = (out', None) \<Longrightarrow> length out' = length out + length xs"
  by (induction xs arbitrary: out) (auto split: call.splits)

lemma process_sequential_all_values:
  assumes "\<forall>x \<in> set input. func x = Value (g x)"
  shows "process_sequential input func config =
           Returns \<lparr>results = map g input, items_processed = length input, threads_used = 1,
                    memory_allocated = 0, success = True, error_message = ''''\<rparr>"
  using sequential_loop_all_values [OF assms, of "[]"]
  by (simp add: process_sequential_def new_result_def)

lemma process_sequential_first_failure:
  assumes "k < length input"
    and "\<forall>i < k. func (input ! i) = Value (g (input ! i))"
    and "func (input ! k) = Throws (Std_exception what)"
  shows "process_sequential input func config =
           Returns \<lparr>results = map g (take k input), items_processed = 0, threads_used = 1,
                    memory_allocated = 0, success = False, error_message = what\<rparr>"
  using sequential_loop_first_failure [OF assms, of "[]"]
  by (simp add: process_sequential_def new_result_def)

lemma process_sequential_other_exception:
  assumes "k < length input"
    and "\<forall>i < k. func (input ! i) = Value (g (input ! i))"
    and "func (input ! k) = Throws Other_exception"
  shows "process_sequential input func config = Propagates Other_exception"
  using sequential_loop_first_failure [OF assms, of "[]"]
  by (simp add: process_sequential_def new_result_def)

lemma process_sequential_success_shape:
  assumes "process_sequential input func config = Returns r" "success r"
  shows "items_processed r = length input \<and> length (results r) = length input"
  using assms sequential_loop_length [of func input "[]"]
  by (auto simp: process_sequential_def new_result_def split: prod.splits option.splits exn.splits)

lemma process_sequential_threads:
  "process_sequential input func config = Returns r \<Longrightarrow> threads_used r = 1"
  by (auto simp: process_sequential_def new_result_def split: prod.splits option.splits exn.splits)

text \<open>
  Claim C2 says that after a failure at index \<open>k\<close> the sequential strategy reports
  \<open>items_processed = k\<close>. The code assigns \<open>items_processed\<close> only after the loop has
  completed, so on a failure it keeps its initial value 0 (see
  \<open>process_sequential_first_failure\<close> for the general statement). On the input
  \<open>[1,2,3,4,5,0,7,8]\<close> with \<open>100/x\<close> the call returns \<open>success = false\<close>, the message, the
  first five quotients, and \<open>items_processed = 0\<close>, not 5.
\<close>

theorem sequential_failure_example:
  "process_sequential [1, 2, 3, 4, 5, 0, 7, 8] hundred_over config =
     Returns \<lparr>results = [100, 50, 100 / 3, 25, 20], items_processed = 0, threads_used = 1,
              memory_allocated = 0, success = False, error_message = ''Division by zero''\<rparr>
   \<and> process_default [1, 2, 3, 4, 5, 0, 7, 8] hundred_over dflt sched cores =
     Returns \<lparr>results = [100, 50, 100 / 3, 25, 20], items_processed = 0, threads_used = 1,
              memory_allocated = 0, success = False, error_message = ''Division by zero''\<rparr>"
  by (simp add: process_default_def process_def default_config_def process_adaptive_def
      PARALLEL_THRESHOLD_def process_sequential_def new_result_def hundred_over_def)

section \<open>The parallel processor\<close>

lemma advances_refl: "advances g input s s"
  by (simp add: advances_def)

lemma advances_trans:
  "advances g input s s1 \<Longrightarrow> advances g input s1 s2 \<Longrightarrow> advances g input s s2"
  unfolding advances_def by (metis subset_iff)

lemma task_step_length: "length (fst (task_step func input (out, t))) = length out"
  by (cases t) (auto split: call.splits)

text \<open>
  A task reads \<open>input ! j\<close> and writes slot \<open>j\<close> only for an index \<open>j\<close> it has pending, a
  step never adds pending indices, and the launched ranges lie within the input: every
  access is in range, whether or not the callable throws.
\<close>

lemma task_step_pending: "pending (snd (task_step func input (out, t))) \<subseteq> pending t"
  by (cases t) (auto split: call.splits)

lemma launched_in_range:
  "t \<in> set (map (\<lambda>(i, e). Running i e) (partition_loop n w 0)) \<Longrightarrow> pending t \<subseteq> {..<n}"
proof -
  assume "t \<in> set (map (\<lambda>(i, e). Running i e) (partition_loop n w 0))"
  then obtain a where a: "a < length (partition_loop n w 0)"
    "t = (\<lambda>(i, e). Running i e) (partition_loop n w 0 ! a)"
    by (auto simp: in_set_conv_nth)
  then show ?thesis
    using partition_loop_nth(1) [OF a(1)] by auto
qed

lemma task_step_advances:
  assumes "\<forall>x \<in> set input. func x = Value (g x)"
    and "length out = length input" and "pending t \<subseteq> {..<length input}"
  shows "advances g input (out, t) (task_step func input (out, t))"
proof (cases t)
  case (Running j e)
  show ?thesis
  proof (cases "j < e")
    case True
    then have "j \<in> pending t" using Running by simp
    then have j: "j < length input" using assms(3) by auto
    then have "func (input ! j) = Value (g (input ! j))" using assms(1) by simp
    then show ?thesis
      using Running True j assms(2) by (auto simp: advances_def nth_list_update)
  next
    case False
    then show ?thesis using Running by (simp add: advances_def)
  qed
qed (simp_all add: advances_def)

lemma task_step_not_stored:
  assumes "\<forall>x \<in> set input. func x = Value (g x)"
    and "pending t \<subseteq> {..<length input}" and "\<forall>x. t \<noteq> Stored x"
  shows "\<forall>x. snd (task_step func input (out, t)) \<noteq> Stored x"
proof (cases t)
  case (Running j e)
  show ?thesis
  proof (cases "j < e")
    case True
    then have "j \<in> pending t" using Running by simp
    then have "j < length input" using assms(2) by auto
    then have "func (input ! j) = Value (g (input ! j))" using assms(1) by simp
    then show ?thesis using Running True by simp
  next
    case False
    then show ?thesis using Running by simp
  qed
qed (use assms in simp_all)

lemma task_run_length: "length (fst (task_run func input (out, t))) = length out"
proof (induction func input "(out, t)" arbitrary: out t rule: task_run.induct)
  case (1 func input out j e)
  obtain out' t' where s: "task_step func input (out, Running j e) = (out', t')"
    by (cases "task_step func input (out, Running j e)")
  have "length out' = length out"
    using task_step_length [of func input out "Running j e"] s by simp
  then show ?case
    using 1 [OF s] s by (simp del: task_step.simps)
qed simp_all

lemma task_run_done: "pending (snd (task_run func input (out, t))) = {}"
proof (induction func input "(out, t)" arbitrary: out t rule: task_run.induct)
  case (1 func input out j e)
  obtain out' t' where s: "task_step func input (out, Running j e) = (out', t')"
    by (cases "task_step func input (out, Running j e)")
  show ?case
    using 1 [OF s] s by (simp del: task_step.simps)
qed simp_all

lemma task_run_advances:
  "\<forall>x \<in> set input. func x = Value (g x) \<Longrightarrow>
   length out = length input \<Longrightarrow> pending t \<subseteq> {..<length input} \<Longrightarrow> \<forall>x. t \<noteq> Stored x \<Longrightarrow>
     advances g input (out, t) (task_run func input (out, t))
     \<and> (\<forall>x. snd (task_run func input (out, t)) \<noteq> Stored x)"
proof (induction func input "(out, t)" arbitrary: out t rule: task_run.induct)
  case (1 func input out j e)
  obtain out' t' where s: "task_step func input (out, Running j e) = (out', t')"
    by (cases "task_step func input (out, Running j e)")
  have adv: "advances g input (out, Running j e) (out', t')"
    using task_step_advances [OF 1(2) 1(3) 1(4)] s by simp
  have ns: "\<forall>x. t' \<noteq> Stored x"
    using task_step_not_stored [OF 1(2) 1(4), of out] s by simp
  have len: "length out' = length input"
    using adv 1(3) by (simp add: advances_def)
  have pen: "pending t' \<subseteq> {..<length input}"
    using adv 1(4) by (auto simp: advances_def)
  have "advances g input (out', t') (task_run func input (out', t'))
        \<and> (\<forall>x. snd (task_run func input (out', t')) \<noteq> Stored x)"
    using 1(1) [OF s 1(2) len pen ns] .
  then show ?case
    using adv s advances_trans by (simp del: task_step.simps) blast
qed (simp_all add: advances_refl)

lemma placed_update:
  assumes "placed g input (out, ts)" and "k < length ts"
    and "advances g input (out, ts ! k) (out', t')" and "\<forall>x. t' \<noteq> Stored x"
  shows "placed g input (out', ts[k := t'])"
proof -
  have len: "length out' = length input"
    using assms(1,3) by (simp add: placed_def advances_def)
  have sub: "pending t' \<subseteq> pending (ts ! k)"
    using assms(3) by (simp add: advances_def)
  have old: "\<forall>t \<in> set ts. pending t \<subseteq> {..<length input} \<and> (\<forall>x. t \<noteq> Stored x)"
    using assms(1) by (simp add: placed_def)
  have "pending (ts ! k) \<subseteq> {..<length input}"
    using old assms(2) by simp
  then have new: "pending t' \<subseteq> {..<length input}"
    using sub by blast
  have tasks: "\<forall>t \<in> set (ts[k := t']). pending t \<subseteq> {..<length input} \<and> (\<forall>x. t \<noteq> Stored x)"
  proof
    fix t assume "t \<in> set (ts[k := t'])"
    then have "t = t' \<or> t \<in> set ts"
      using set_update_subset_insert [of ts k t'] by auto
    then show "pending t \<subseteq> {..<length input} \<and> (\<forall>x. t \<noteq> Stored x)"
      using new old assms(4) by blast
  qed
  have cover: "\<forall>i < length input. out' ! i = g (input ! i) \<or> (\<exists>t \<in> set (ts[k := t']). i \<in> pending t)"
  proof (intro allI impI)
    fix i assume i: "i < length input"
    show "out' ! i = g (input ! i) \<or> (\<exists>t \<in> set (ts[k := t']). i \<in> pending t)"
    proof (cases "i \<in> pending (ts ! k)")
      case True
      show ?thesis
      proof (cases "i \<in> pending t'")
        case True
        moreover have "t' \<in> set (ts[k := t'])"
          using assms(2) by (rule set_update_memI)
        ultimately show ?thesis by blast
      next
        case False
        then have "out' ! i = g (input ! i)"
          using True assms(3) by (simp add: advances_def)
        then show ?thesis by simp
      qed
    next
      case False
      then have same: "out' ! i = out ! i"
        using assms(3) by (simp add: advances_def)
      have "out ! i = g (input ! i) \<or> (\<exists>t \<in> set ts. i \<in> pending t)"
        using assms(1) i by (simp add: placed_def)
      then show ?thesis
      proof
        assume "out ! i = g (input ! i)"
        then show ?thesis using same by simp
      next
        assume "\<exists>t \<in> set ts. i \<in> pending t"
        then obtain m where m: "m < length ts" "i \<in> pending (ts ! m)"
          by (auto simp: in_set_conv_nth)
        then have "m \<noteq> k" using False by blast
        then have "ts[k := t'] ! m = ts ! m" by simp
        moreover have "ts[k := t'] ! m \<in> set (ts[k := t'])"
          using m(1) by simp
        ultimately show ?thesis using m(2) by metis
      qed
    qed
  qed
  show ?thesis
    using len tasks cover by (simp add: placed_def)
qed

lemma schedule_step_placed:
  assumes "\<forall>x \<in> set input. func x = Value (g x)" and "placed g input st"
  shows "placed g input (schedule_step func input st k)"
proof -
  obtain out ts where st: "st = (out, ts)" by (cases st)
  show ?thesis
  proof (cases "k < length ts")
    case True
    obtain out' t' where s: "task_step func input (out, ts ! k) = (out', t')"
      by (cases "task_step func input (out, ts ! k)")
    have tk: "pending (ts ! k) \<subseteq> {..<length input}" "\<forall>x. ts ! k \<noteq> Stored x"
      and len: "length out = length input"
      using assms(2) True st by (simp_all add: placed_def)
    have "advances g input (out, ts ! k) (out', t')"
      using task_step_advances [OF assms(1) len tk(1)] s by simp
    moreover have "\<forall>x. t' \<noteq> Stored x"
      using task_step_not_stored [OF assms(1) tk(1) tk(2), of out] s by simp
    ultimately have "placed g input (out', ts[k := t'])"
      using placed_update assms(2) True st by blast
    then show ?thesis using st s True by (simp add: schedule_step_def)
  next
    case False
    then show ?thesis using assms(2) st by (simp add: schedule_step_def)
  qed
qed

lemma run_schedule_placed:
  assumes "\<forall>x \<in> set input. func x = Value (g x)"
  shows "placed g input st \<Longrightarrow> placed g input (run_schedule func input sched st)"
  unfolding run_schedule_def
  by (induction sched arbitrary: st) (simp_all add: schedule_step_placed [OF assms])

lemma future_wait_placed:
  assumes "\<forall>x \<in> set input. func x = Value (g x)" and "placed g input st" and "k < length (snd st)"
  shows "placed g input (future_wait func input st k)
       \<and> length (snd (future_wait func input st k)) = length (snd st)
       \<and> pending (snd (future_wait func input st k) ! k) = {}
       \<and> (\<forall>m. m \<noteq> k \<longrightarrow> snd (future_wait func input st k) ! m = snd st ! m)"
proof -
  obtain out ts where st: "st = (out, ts)" by (cases st)
  obtain out' t' where s: "task_run func input (out, ts ! k) = (out', t')"
    by (cases "task_run func input (out, ts ! k)")
  have k: "k < length ts" using assms(3) st by simp
  have tk: "pending (ts ! k) \<subseteq> {..<length input}" "\<forall>x. ts ! k \<noteq> Stored x"
    and len: "length out = length input"
    using assms(2) k st by (simp_all add: placed_def)
  have "advances g input (out, ts ! k) (out', t') \<and> (\<forall>x. t' \<noteq> Stored x)"
    using task_run_advances [OF assms(1) len tk(1) tk(2)] s by simp
  then have "placed g input (out', ts[k := t'])"
    using placed_update assms(2) k st by blast
  moreover have "pending t' = {}"
    using task_run_done [of func input out "ts ! k"] s by simp
  moreover have "future_wait func input st k = (out', ts[k := t'])"
    using st s by (simp add: future_wait_def)
  ultimately show ?thesis using k st by simp
qed

lemma wait_prefix_placed:
  assumes "\<forall>x \<in> set input. func x = Value (g x)" and "placed g input st"
  shows "m \<le> length (snd st) \<Longrightarrow>
         placed g input (foldl (future_wait func input) st [0..<m])
       \<and> length (snd (foldl (future_wait func input) st [0..<m])) = length (snd st)
       \<and> (\<forall>k < m. pending (snd (foldl (future_wait func input) st [0..<m]) ! k) = {})"
proof (induction m)
  case 0
  then show ?case using assms(2) by simp
next
  case (Suc m)
  let ?st = "foldl (future_wait func input) st [0..<m]"
  have ih: "placed g input ?st" "length (snd ?st) = length (snd st)"
    "\<forall>k < m. pending (snd ?st ! k) = {}"
    using Suc by simp_all
  have m: "m < length (snd ?st)" using Suc.prems ih(2) by simp
  note fw = future_wait_placed [OF assms(1) ih(1) m]
  have eq: "foldl (future_wait func input) st [0..<Suc m] = future_wait func input ?st m"
    by simp
  have "\<forall>k < Suc m. pending (snd (future_wait func input ?st m) ! k) = {}"
  proof (intro allI impI)
    fix k assume "k < Suc m"
    then consider "k = m" | "k < m" by linarith
    then show "pending (snd (future_wait func input ?st m) ! k) = {}"
    proof cases
      case 1
      then show ?thesis using fw by simp
    next
      case 2
      then have "snd (future_wait func input ?st m) ! k = snd ?st ! k"
        using fw by simp
      then show ?thesis using ih(3) 2 by simp
    qed
  qed
  then show ?case unfolding eq using fw ih(2) by simp
qed

lemma placed_all_done:
  assumes "placed g input (out, ts)" and "\<forall>k < length ts. pending (ts ! k) = {}"
  shows "out = map g input"
proof (rule nth_equalityI)
  show "length out = length (map g input)"
    using assms(1) by (simp add: placed_def)
next
  fix i assume "i < length out"
  then have i: "i < length input" using assms(1) by (simp add: placed_def)
  have "\<not> (\<exists>t \<in> set ts. i \<in> pending t)"
    using assms(2) by (auto simp: in_set_conv_nth)
  then have "out ! i = g (input ! i)"
    using assms(1) i unfolding placed_def by auto
  then show "out ! i = map g input ! i" using i by simp
qed

lemma initial_placed:
  "placed g input (replicate (length input) dflt,
                   map (\<lambda>(i, e). Running i e) (partition_loop (length input) w 0))"
proof -
  let ?ps = "partition_loop (length input) w 0"
  have bound: "\<And>a. a < length ?ps \<Longrightarrow> snd (?ps ! a) \<le> length input"
    using partition_loop_nth(1) by simp
  have tasks: "\<forall>t \<in> set (map (\<lambda>(i, e). Running i e) ?ps).
      pending t \<subseteq> {..<length input} \<and> (\<forall>x. t \<noteq> Stored x)"
  proof
    fix t assume "t \<in> set (map (\<lambda>(i, e). Running i e) ?ps)"
    then obtain a where a: "a < length ?ps" "t = (\<lambda>(i, e). Running i e) (?ps ! a)"
      by (auto simp: in_set_conv_nth)
    then show "pending t \<subseteq> {..<length input} \<and> (\<forall>x. t \<noteq> Stored x)"
      using bound [OF a(1)] by (cases "?ps ! a") auto
  qed
  have cover: "\<forall>i < length input. \<exists>t \<in> set (map (\<lambda>(i, e). Running i e) ?ps). i \<in> pending t"
  proof (intro allI impI)
    fix i assume "i < length input"
    then have "i \<in> set (concat (map (\<lambda>(i, e). [i..<e]) ?ps))"
      by (simp only: partition_loop_concat) simp
    then obtain s e where "(s, e) \<in> set ?ps" "i \<in> set [s..<e]"
      by auto
    then have "Running s e \<in> set (map (\<lambda>(i, e). Running i e) ?ps)" "i \<in> pending (Running s e)"
      by force+
    then show "\<exists>t \<in> set (map (\<lambda>(i, e). Running i e) ?ps). i \<in> pending t" by blast
  qed
  show ?thesis
    using tasks cover by (simp add: placed_def)
qed

lemma wait_all_futures_all_values:
  assumes "\<forall>x \<in> set input. func x = Value (g x)"
  shows "fst (wait_all_futures func input
            (run_schedule func input sched
               (replicate (length input) dflt,
                map (\<lambda>(i, e). Running i e) (partition_loop (length input) w 0))))
         = map g input"
proof -
  let ?st = "run_schedule func input sched
               (replicate (length input) dflt,
                map (\<lambda>(i, e). Running i e) (partition_loop (length input) w 0))"
  have p: "placed g input ?st"
    using run_schedule_placed [OF assms initial_placed] .
  obtain out ts where w: "wait_all_futures func input ?st = (out, ts)"
    by (cases "wait_all_futures func input ?st")
  have "placed g input (out, ts) \<and> length ts = length (snd ?st)
        \<and> (\<forall>k < length (snd ?st). pending (ts ! k) = {})"
    using wait_prefix_placed [OF assms p, of "length (snd ?st)"] w
    by (simp add: wait_all_futures_def)
  then have "out = map g input"
    using placed_all_done by metis
  then show ?thesis using w by simp
qed

lemma process_parallel_all_values:
  assumes "\<forall>x \<in> set input. func x = Value (g x)"
    and "input \<noteq> []" and "1 \<le> max_threads config"
  shows "process_parallel input func config dflt sched =
           Returns \<lparr>results = map g input, items_processed = length input,
                    threads_used = min (max_threads config) (length input),
                    memory_allocated = 0, success = True, error_message = ''''\<rparr>"
proof -
  have "min (max_threads config) (length input) \<noteq> 0"
    using assms(2,3) by simp
  then show ?thesis
    using wait_all_futures_all_values [OF assms(1), where dflt = dflt and sched = sched
        and w = "min (max_threads config) (length input)"]
    by (auto simp: process_parallel_def new_result_def Let_def split: prod.splits)
qed

lemma schedule_step_length: "length (fst (schedule_step func input st k)) = length (fst st)"
proof (cases st)
  case (Pair out ts)
  obtain out' t' where s: "task_step func input (out, ts ! k) = (out', t')"
    by (cases "task_step func input (out, ts ! k)")
  then have "length out' = length out"
    using task_step_length [of func input out "ts ! k"] by simp
  then show ?thesis
    using Pair s by (simp add: schedule_step_def)
qed

lemma run_schedule_length: "length (fst (run_schedule func input sched st)) = length (fst st)"
  unfolding run_schedule_def
  by (induction sched arbitrary: st) (simp_all add: schedule_step_length)

lemma future_wait_length: "length (fst (future_wait func input st k)) = length (fst st)"
proof (cases st)
  case (Pair out ts)
  obtain out' t' where s: "task_run func input (out, ts ! k) = (out', t')"
    by (cases "task_run func input (out, ts ! k)")
  then have "length out' = length out"
    using task_run_length [of func input out "ts ! k"] by simp
  then show ?thesis
    using Pair s by (simp add: future_wait_def)
qed

lemma foldl_future_wait_length:
  "length (fst (foldl (future_wait func input) st ks)) = length (fst st)"
  by (induction ks arbitrary: st) (simp_all add: future_wait_length)

lemma wait_all_futures_length: "length (fst (wait_all_futures func input st)) = length (fst st)"
  by (simp add: wait_all_futures_def foldl_future_wait_length)

lemma process_parallel_returns:
  assumes "min (max_threads config) (length input) \<noteq> 0"
  shows "\<exists>out. length out = length input \<and>
           process_parallel input func config dflt sched =
             Returns \<lparr>results = out, items_processed = length input,
                      threads_used = min (max_threads config) (length input),
                      memory_allocated = 0, success = True, error_message = []\<rparr>"
proof -
  let ?st = "run_schedule func input sched
       (replicate (length input) dflt,
        map (\<lambda>(i, e). Running i e)
          (partition_loop (length input) (min (max_threads config) (length input)) 0))"
  obtain out ts where w: "wait_all_futures func input ?st = (out, ts)"
    by (cases "wait_all_futures func input ?st")
  have "length out = length input"
    using wait_all_futures_length [of func input ?st] w by (simp add: run_schedule_length)
  moreover have "process_parallel input func config dflt sched =
             Returns \<lparr>results = out, items_processed = length input,
                      threads_used = min (max_threads config) (length input),
                      memory_allocated = 0, success = True, error_message = []\<rparr>"
    using assms w by (simp add: process_parallel_def new_result_def Let_def)
  ultimately show ?thesis by blast
qed

lemma process_parallel_zero_workers:
  "min (max_threads config) (length input) = 0 \<Longrightarrow>
   process_parallel input func config dflt sched = Undefined_behaviour"
  by (simp add: process_parallel_def new_result_def Let_def)

lemma process_parallel_threads:
  assumes "process_parallel input func config dflt sched = Returns r"
  shows "threads_used r = min (max_threads config) (length input)"
    and "items_processed r = length input" and "length (results r) = length input"
    and "success r" and "error_message r = ''''"
proof -
  have nz: "min (max_threads config) (length input) \<noteq> 0"
  proof
    assume "min (max_threads config) (length input) = 0"
    then have "process_parallel input func config dflt sched = Undefined_behaviour"
      by (rule process_parallel_zero_workers)
    then show False using assms by simp
  qed
  from process_parallel_returns [OF nz, of func dflt sched] assms
  show "threads_used r = min (max_threads config) (length input)"
    and "items_processed r = length input" and "length (results r) = length input"
    and "success r" and "error_message r = ''''"
    by auto
qed

text \<open>
  Claim C1 says that the parallel strategy returns \<open>success = false\<close> and an error
  description whenever the callable fails on some element. The code does not: a task's
  exception is stored in its future, \<^verbatim>\<open>future.wait()\<close> does not rethrow it, and the
  \<^verbatim>\<open>catch\<close> clause is never entered. On the input of \<^verbatim>\<open>example_error_handling\<close> with
  eight workers the call returns \<open>success = true\<close>, \<open>items_processed = 8\<close> and an empty
  error message, with the slot of the failed element left at its initial value; and it
  reports success under every interleaving of the tasks.
\<close>

theorem parallel_failure_reported_as_success:
  "process_parallel [1, 2, 3, 4, 5, 0, 7, 8] hundred_over
     ((default_config 4)\<lparr>concurrency := Parallel, max_threads := 8\<rparr>) 0 [] =
     Returns \<lparr>results = [100, 50, 100 / 3, 25, 20, 0, 100 / 7, 25 / 2],
              items_processed = 8, threads_used = 8, memory_allocated = 0,
              success = True, error_message = ''''\<rparr>
   \<and> (case process_parallel [1, 2, 3, 4, 5, 0, 7, 8] hundred_over
            ((default_config 4)\<lparr>concurrency := Parallel, max_threads := 8\<rparr>) dflt sched of
         Returns r \<Rightarrow> success r \<and> error_message r = '''' \<and> items_processed r = 8
       | Propagates x \<Rightarrow> False
       | Undefined_behaviour \<Rightarrow> False)"
proof
  show "process_parallel [1, 2, 3, 4, 5, 0, 7, 8] hundred_over
     ((default_config 4)\<lparr>concurrency := Parallel, max_threads := 8\<rparr>) 0 [] =
     Returns \<lparr>results = [100, 50, 100 / 3, 25, 20, 0, 100 / 7, 25 / 2],
              items_processed = 8, threads_used = 8, memory_allocated = 0,
              success = True, error_message = ''''\<rparr>"
    by code_simp
next
  let ?cfg = "(default_config 4)\<lparr>concurrency := Parallel, max_threads := 8\<rparr>"
  let ?input = "[1, 2, 3, 4, 5, 0, 7, 8] :: int list"
  have "min (max_threads ?cfg) (length ?input) \<noteq> 0"
    by (simp add: default_config_def)
  from process_parallel_returns [OF this, of hundred_over dflt sched]
  obtain out where "process_parallel ?input hundred_over ?cfg dflt sched =
      Returns \<lparr>results = out, items_processed = length ?input,
               threads_used = min (max_threads ?cfg) (length ?input),
               memory_allocated = 0, success = True, error_message = []\<rparr>"
    by blast
  then show "case process_parallel ?input hundred_over ?cfg dflt sched of
         Returns r \<Rightarrow> success r \<and> error_message r = '''' \<and> items_processed r = 8
       | Propagates x \<Rightarrow> False
       | Undefined_behaviour \<Rightarrow> False"
    by simp
qed

text \<open>
  Claim C5 says that the parallel strategy returns the transformed output for every input
  on which the callable never fails. For a non-empty input and \<open>max_threads \<ge> 1\<close> it does,
  under every interleaving (\<open>process_parallel_all_values\<close>). For the empty input it does
  not return: \<open>threads_used = min(max_threads, 0) = 0\<close>, and the chunk size is then computed
  as \<^verbatim>\<open>input.size() / result.threads_used\<close>, a division by zero.
\<close>

theorem parallel_empty_input_undefined:
  "process_parallel [] func config dflt sched = Undefined_behaviour
   \<and> process [] (config\<lparr>concurrency := Parallel\<rparr>) func dflt sched cores = Undefined_behaviour
   \<and> process [] (config\<lparr>concurrency := ThreadPool\<rparr>) func dflt sched cores = Undefined_behaviour"
  by (simp add: process_def process_parallel_def new_result_def)

section \<open>The adaptive processor and the dispatcher\<close>

lemma process_policy:
  "process input (config\<lparr>concurrency := Sequential\<rparr>) func dflt sched cores =
     process_sequential input func (config\<lparr>concurrency := Sequential\<rparr>)"
  "process input (config\<lparr>concurrency := Parallel\<rparr>) func dflt sched cores =
     process_parallel input func (config\<lparr>concurrency := Parallel\<rparr>) dflt sched"
  "process input (config\<lparr>concurrency := ThreadPool\<rparr>) func dflt sched cores =
     process_parallel input func (config\<lparr>concurrency := ThreadPool\<rparr>) dflt sched"
  "process input (config\<lparr>concurrency := Adaptive\<rparr>) func dflt sched cores =
     process_adaptive input func (config\<lparr>concurrency := Adaptive\<rparr>) dflt sched cores"
  by (simp_all add: process_def)

lemma process_adaptive_all_values:
  assumes "\<forall>x \<in> set input. func x = Value (g x)" and "1 \<le> max_threads config"
  shows "process_adaptive input func config dflt sched cores =
           Returns \<lparr>results = map g input, items_processed = length input,
                    threads_used = (if 1000 \<le> length input \<and> 1 < cores
                                    then min (max_threads config) (length input) else 1),
                    memory_allocated = 0, success = True, error_message = ''''\<rparr>"
proof (cases "1000 \<le> length input \<and> 1 < cores")
  case True
  then have "input \<noteq> []" by auto
  then show ?thesis
    using True process_parallel_all_values [OF assms(1) _ assms(2), of dflt sched]
    by (simp add: process_adaptive_def PARALLEL_THRESHOLD_def)
next
  case False
  then show ?thesis
    using process_sequential_all_values [OF assms(1), of config]
    by (auto simp: process_adaptive_def PARALLEL_THRESHOLD_def)
qed

lemma process_all_values:
  assumes "\<forall>x \<in> set input. func x = Value (g x)" and "input \<noteq> []" and "1 \<le> max_threads config"
  shows "\<exists>n. process input config func dflt sched cores =
           Returns \<lparr>results = map g input, items_processed = length input, threads_used = n,
                    memory_allocated = 0, success = True, error_message = ''''\<rparr>"
proof (cases "concurrency config")
  case Sequential
  then show ?thesis
    using process_sequential_all_values [OF assms(1), of config] by (simp add: process_def)
next
  case Parallel
  then show ?thesis
    using process_parallel_all_values [OF assms, of dflt sched] by (simp add: process_def)
next
  case Adaptive
  then show ?thesis
    using process_adaptive_all_values [OF assms(1,3), of dflt sched cores] by (simp add: process_def)
next
  case ThreadPool
  then show ?thesis
    using process_parallel_all_values [OF assms, of dflt sched] by (simp add: process_def)
qed

lemma strategies_agree:
  assumes "\<forall>x \<in> set input. func x = Value (g x)" and "input \<noteq> []"
    and "1 \<le> max_threads config" and "1 \<le> max_threads config'"
  shows "\<exists>r r'. process input config func dflt sched cores = Returns r
             \<and> process input config' func dflt' sched' cores' = Returns r'
             \<and> results r = results r' \<and> results r = map g input"
  using process_all_values [OF assms(1,2,3), of dflt sched cores]
    process_all_values [OF assms(1,2,4), of dflt' sched' cores']
  by auto

lemma squares_nth:
  assumes "i < 10000"
  shows "map (\<lambda>x. x * x) [1..10000] ! i = (int i + 1)\<^sup>2"
proof -
  have "[1..10000] ! i = 1 + int i"
    using assms by (intro nth_upto) simp
  then show ?thesis
    using assms by (simp add: power2_eq_square add.commute)
qed

text \<open>
  Claim C6. When the callable returns a value for every element, the sequential strategy
  returns the outputs in input order, \<open>output[i] = transform(input[i])\<close>, with
  \<open>items_processed\<close> the input length, \<open>threads_used = 1\<close> and \<open>success = true\<close>; so does
  \<open>process\<close> under the \<open>Sequential\<close> policy. For the input \<open>[1..10000]\<close> and the squaring
  callable under the default configuration (whatever the hardware concurrency and the
  interleaving), \<open>items_processed = 10000\<close>, \<open>output[i] = (i + 1)\<^sup>2\<close> and \<open>success = true\<close>.
\<close>

theorem sequential_all_succeed:
  assumes "\<forall>x \<in> set input. func x = Value (g x)"
  shows "process_sequential input func config =
           Returns \<lparr>results = map g input, items_processed = length input, threads_used = 1,
                    memory_allocated = 0, success = True, error_message = ''''\<rparr>
       \<and> process input (config\<lparr>concurrency := Sequential\<rparr>) func dflt sched cores =
           Returns \<lparr>results = map g input, items_processed = length input, threads_used = 1,
                    memory_allocated = 0, success = True, error_message = ''''\<rparr>
       \<and> process_default [1..10000] square dflt' sched' cores' =
           Returns \<lparr>results = map (\<lambda>x. x * x) [1..10000], items_processed = 10000,
                    threads_used = (if 1 < cores' then min cores' 10000 else 1),
                    memory_allocated = 0, success = True, error_message = ''''\<rparr>
       \<and> (\<forall>i < 10000. map (\<lambda>x. x * x) [1..10000] ! i = (int i + 1)\<^sup>2)"
proof (intro conjI)
  show "process_sequential input func config =
           Returns \<lparr>results = map g input, items_processed = length input, threads_used = 1,
                    memory_allocated = 0, success = True, error_message = ''''\<rparr>"
    by (rule process_sequential_all_values [OF assms])
  show "process input (config\<lparr>concurrency := Sequential\<rparr>) func dflt sched cores =
           Returns \<lparr>results = map g input, items_processed = length input, threads_used = 1,
                    memory_allocated = 0, success = True, error_message = ''''\<rparr>"
    by (simp only: process_policy process_sequential_all_values [OF assms])
  have sq: "\<forall>x \<in> set [1..10000]. square x = Value (x * x)"
    by (simp add: square_def)
  show "process_default [1..10000] square dflt' sched' cores' =
           Returns \<lparr>results = map (\<lambda>x. x * x) [1..10000], items_processed = 10000,
                    threads_used = (if 1 < cores' then min cores' 10000 else 1),
                    memory_allocated = 0, success = True, error_message = ''''\<rparr>"
  proof (cases "1 < cores'")
    case True
    then have "1 \<le> max_threads (default_config cores')"
      by (simp add: default_config_def)
    from process_adaptive_all_values [OF sq this, of dflt' sched' cores'] True
    show ?thesis
      by (simp add: process_default_def process_def default_config_def)
  next
    case False
    then show ?thesis
      using process_sequential_all_values [OF sq, of "default_config cores'"]
      by (simp add: process_default_def process_def default_config_def process_adaptive_def)
  qed
  show "\<forall>i < 10000. map (\<lambda>x. x * x) [1..10000] ! i = (int i + 1)\<^sup>2"
    using squares_nth by blast
qed

theorem sequential_all_succeed_witness:
  "process_sequential [1, 2, 3] square (default_config 4) =
     Returns \<lparr>results = [1, 4, 9], items_processed = 3, threads_used = 1,
              memory_allocated = 0, success = True, error_message = ''''\<rparr>
   \<and> map (\<lambda>x. x * x) [1..10000] ! 4 = (25::int)"
proof -
  have h: "\<forall>x \<in> set [1, 2, 3]. square x = Value (x * x)"
    by (simp add: square_def)
  show ?thesis
    using sequential_all_succeed [OF h, of "default_config 4" 0 "[]" 4 0 "[]" 4]
    by simp
qed

text \<open>
  Claim C7 as stated fails in its bound \<open>threads_used > 1\<close>: with 1000 elements, two
  hardware threads and \<open>max_threads = 1\<close> the adaptive strategy delegates to the parallel
  one, which reports \<open>threads_used = 1\<close>.
\<close>

theorem adaptive_threads_counterexample:
  "process_adaptive (replicate 1000 (0::int)) Value ((default_config 2)\<lparr>max_threads := 1\<rparr>) 0 [] 2 =
     process_parallel (replicate 1000 (0::int)) Value ((default_config 2)\<lparr>max_threads := 1\<rparr>) 0 []
   \<and> process_adaptive (replicate 1000 (0::int)) Value ((default_config 2)\<lparr>max_threads := 1\<rparr>) 0 [] 2 =
     Returns \<lparr>results = replicate 1000 0, items_processed = 1000, threads_used = 1,
              memory_allocated = 0, success = True, error_message = ''''\<rparr>"
proof -
  let ?input = "replicate 1000 (0::int)"
  let ?cfg = "(default_config 2)\<lparr>max_threads := 1\<rparr>"
  have a: "\<forall>x \<in> set ?input. Value x = Value ((\<lambda>y. y) x)" by simp
  have b: "?input \<noteq> []" by simp
  have c: "1 \<le> max_threads ?cfg" by simp
  have "process_parallel ?input Value ?cfg 0 [] =
     Returns \<lparr>results = replicate 1000 0, items_processed = 1000, threads_used = 1,
              memory_allocated = 0, success = True, error_message = ''''\<rparr>"
    using process_parallel_all_values [OF a b c, of 0 "[]"] by simp
  then show ?thesis
    by (simp add: process_adaptive_def PARALLEL_THRESHOLD_def)
qed

text \<open>
  Claim C7, amended. The adaptive strategy decides from the input length \<open>N\<close> and the
  hardware concurrency \<open>C\<close> alone: for \<open>N < 1000\<close> it is the sequential strategy; for
  \<open>N \<ge> 1000\<close> and \<open>C > 1\<close> it is the parallel strategy; otherwise it is the sequential
  strategy. A record returned by the sequential strategy has \<open>threads_used = 1\<close>; one
  returned by the parallel strategy has \<open>threads_used = min(max_threads, N)\<close>, which is at
  most the declared maximum and exceeds 1 exactly when \<open>max_threads > 1\<close> and \<open>N > 1\<close>.
\<close>

theorem adaptive_decision:
  "(length input < 1000 \<longrightarrow>
      process_adaptive input func config dflt sched cores = process_sequential input func config)
   \<and> (1000 \<le> length input \<and> 1 < cores \<longrightarrow>
      process_adaptive input func config dflt sched cores = process_parallel input func config dflt sched)
   \<and> (1000 \<le> length input \<and> cores \<le> 1 \<longrightarrow>
      process_adaptive input func config dflt sched cores = process_sequential input func config)
   \<and> (process_sequential input func config = Returns r \<longrightarrow> threads_used r = 1)
   \<and> (process_parallel input func config dflt sched = Returns r' \<longrightarrow>
        threads_used r' = min (max_threads config) (length input)
        \<and> threads_used r' \<le> max_threads config
        \<and> (1 < threads_used r' \<longleftrightarrow> 1 < max_threads config \<and> 1 < length input))"
proof (intro conjI impI)
  assume "process_parallel input func config dflt sched = Returns r'"
  then have t: "threads_used r' = min (max_threads config) (length input)"
    by (rule process_parallel_threads(1))
  show "threads_used r' = min (max_threads config) (length input)" by (rule t)
  show "threads_used r' \<le> max_threads config" using t by simp
  show "1 < threads_used r' \<longleftrightarrow> 1 < max_threads config \<and> 1 < length input"
    using t by simp
next
  assume "process_sequential input func config = Returns r"
  then show "threads_used r = 1" by (rule process_sequential_threads)
qed (auto simp: process_adaptive_def PARALLEL_THRESHOLD_def)

theorem adaptive_decision_witness:
  "process_adaptive [1, 2, 3] square (default_config 4) 0 [] 4 =
     process_sequential [1, 2, 3] square (default_config 4)
   \<and> process_adaptive [1..1000] square (default_config 4) 0 [] 4 =
     process_parallel [1..1000] square (default_config 4) 0 []
   \<and> process_adaptive [1..1000] square (default_config 1) 0 [] 1 =
     process_sequential [1..1000] square (default_config 1)
   \<and> threads_used \<lparr>results = [1, 4, 9], items_processed = 3, threads_used = 1,
              memory_allocated = 0, success = True, error_message = ''''\<rparr> = 1
   \<and> threads_used \<lparr>results = map (\<lambda>x. x * x) [1..1000], items_processed = 1000, threads_used = 4,
              memory_allocated = 0, success = True, error_message = ''''\<rparr> = min 4 1000"
proof -
  let ?r = "\<lparr>results = [1, 4, 9], items_processed = 3, threads_used = 1,
              memory_allocated = 0, success = True, error_message = ''''\<rparr> :: int ProcessResult"
  let ?r' = "\<lparr>results = map (\<lambda>x. x * x) [1..1000], items_processed = 1000, threads_used = 4,
              memory_allocated = 0, success = True, error_message = ''''\<rparr> :: int ProcessResult"
  have s: "process_sequential [1, 2, 3] square (default_config 4) = Returns ?r"
    by (simp add: process_sequential_def new_result_def square_def)
  have sq: "\<forall>x \<in> set [1..1000]. square x = Value (x * x)"
    by (simp add: square_def)
  have p: "process_parallel [1..1000] square (default_config 4) 0 [] = Returns ?r'"
    using process_parallel_all_values [OF sq, of "default_config 4" 0 "[]"]
    by (simp add: default_config_def)
  show ?thesis
    using adaptive_decision [of "[1, 2, 3]" square "default_config 4" 0 "[]" 4 ?r ?r']
      adaptive_decision [of "[1..1000]" square "default_config 4" 0 "[]" 4 ?r ?r']
      adaptive_decision [of "[1..1000]" square "default_config 1" 0 "[]" 1 ?r ?r']
      s p
    by simp
qed

text \<open>
  Claim C8 as stated fails: on the empty input the sequential strategy reports
  \<open>threads_used = 1\<close>, not 0, and the parallel strategy divides by zero.
\<close>

theorem empty_input_counterexample:
  "process_sequential [] (Value :: int \<Rightarrow> int call) (default_config 4) =
     Returns \<lparr>results = [], items_processed = 0, threads_used = 1,
              memory_allocated = 0, success = True, error_message = ''''\<rparr>
   \<and> process [] ((default_config 4)\<lparr>concurrency := Parallel\<rparr>) (Value :: int \<Rightarrow> int call) 0 [] 4 =
     Undefined_behaviour"
  by (simp add: process_sequential_def new_result_def process_def process_parallel_def
      default_config_def)

text \<open>
  Claim C8, amended. For an empty input the sequential strategy, the adaptive strategy
  (which delegates to it), and \<open>process\<close> under the \<open>Sequential\<close>, \<open>Adaptive\<close> or default
  policy perform no call of the callable and return a record with an empty output,
  \<open>items_processed = 0\<close>, \<open>threads_used = 1\<close> and \<open>success = true\<close>.
\<close>

theorem empty_input_sequential:
  "process_sequential [] func config =
     Returns \<lparr>results = [], items_processed = 0, threads_used = 1,
              memory_allocated = 0, success = True, error_message = ''''\<rparr>
   \<and> process_adaptive [] func config dflt sched cores =
     Returns \<lparr>results = [], items_processed = 0, threads_used = 1,
              memory_allocated = 0, success = True, error_message = ''''\<rparr>
   \<and> process [] (config\<lparr>concurrency := Sequential\<rparr>) func dflt sched cores =
     Returns \<lparr>results = [], items_processed = 0, threads_used = 1,
              memory_allocated = 0, success = True, error_message = ''''\<rparr>
   \<and> process [] (config\<lparr>concurrency := Adaptive\<rparr>) func dflt sched cores =
     Returns \<lparr>results = [], items_processed = 0, threads_used = 1,
              memory_allocated = 0, success = True, error_message = ''''\<rparr>
   \<and> process_default [] func dflt sched cores =
     Returns \<lparr>results = [], items_processed = 0, threads_used = 1,
              memory_allocated = 0, success = True, error_message = ''''\<rparr>"
  by (simp add: process_sequential_def new_result_def process_def process_adaptive_def
      PARALLEL_THRESHOLD_def process_default_def default_config_def)

text \<open>
  Claim C9 says that all strategies produce the same output for every input and every
  callable that never fails. For a non-empty input and \<open>max_threads \<ge> 1\<close> they do, for
  all policies, interleavings and hardware concurrencies (\<open>strategies_agree\<close>). On the
  empty input they do not: the \<open>Sequential\<close> and \<open>Adaptive\<close> policies return an empty output,
  the \<open>Parallel\<close> policy divides by zero and returns nothing.
\<close>

theorem strategies_disagree_on_empty_input:
  "process ([] :: int list) ((default_config 4)\<lparr>concurrency := Sequential\<rparr>) square 0 [] 4 =
     Returns \<lparr>results = [], items_processed = 0, threads_used = 1,
              memory_allocated = 0, success = True, error_message = ''''\<rparr>
   \<and> process ([] :: int list) ((default_config 4)\<lparr>concurrency := Adaptive\<rparr>) square 0 [] 4 =
     Returns \<lparr>results = [], items_processed = 0, threads_used = 1,
              memory_allocated = 0, success = True, error_message = ''''\<rparr>
   \<and> process ([] :: int list) ((default_config 4)\<lparr>concurrency := Parallel\<rparr>) square 0 [] 4 =
     Undefined_behaviour
   \<and> process ([] :: int list) ((default_config 4)\<lparr>concurrency := Parallel\<rparr>) square 0 [] 4 \<noteq>
     process ([] :: int list) ((default_config 4)\<lparr>concurrency := Sequential\<rparr>) square 0 [] 4"
  by (simp add: process_sequential_def new_result_def process_def process_adaptive_def
      PARALLEL_THRESHOLD_def process_parallel_def default_config_def)

lemma process_parallel_5_2:
  "process_parallel [1, 2, 3, 4, 5] square ((default_config 4)\<lparr>concurrency := Parallel, max_threads := 2\<rparr>)
      0 [2, 0, 1, 1, 0, 2, 7] =
     Returns \<lparr>results = [1, 4, 9, 16, 25], items_processed = 5, threads_used = 2,
              memory_allocated = 0, success = True, error_message = ''''\<rparr>"
  by code_simp

text \<open>
  Claim C10. Whenever a call of \<open>process\<close>, under any policy, for any input, interleaving
  and hardware concurrency, returns a record with \<open>success = true\<close>, that record's
  \<open>items_processed\<close> equals the input length and its output has exactly one entry per
  input element.
\<close>

theorem success_implies_complete:
  assumes "process input config func dflt sched cores = Returns r" and "success r"
  shows "items_processed r = length input \<and> length (results r) = length input"
proof -
  have seq: "process_sequential input func config = Returns r \<Longrightarrow> ?thesis"
    using process_sequential_success_shape assms(2) by blast
  have par: "process_parallel input func config dflt sched = Returns r \<Longrightarrow> ?thesis"
    using process_parallel_threads(2,3) [of input func config dflt sched r] by simp
  have "process_sequential input func config = Returns r
        \<or> process_parallel input func config dflt sched = Returns r"
    using assms(1)
    by (cases "concurrency config") (auto simp: process_def process_adaptive_def split: if_splits)
  then show ?thesis using seq par by blast
qed

theorem success_implies_complete_witness:
  "process [1, 2, 3, 4, 5] ((default_config 4)\<lparr>concurrency := Parallel, max_threads := 2\<rparr>) square
      0 [2, 0, 1, 1, 0, 2, 7] 4 =
     Returns \<lparr>results = [1, 4, 9, 16, 25], items_processed = 5, threads_used = 2,
              memory_allocated = 0, success = True, error_message = ''''\<rparr>
   \<and> items_processed \<lparr>results = [1, 4, 9, 16, 25 :: int], items_processed = 5, threads_used = 2,
              memory_allocated = 0, success = True, error_message = ''''\<rparr> = length [1, 2, 3, 4, 5 :: int]
   \<and> length (results \<lparr>results = [1, 4, 9, 16, 25 :: int], items_processed = 5, threads_used = 2,
              memory_allocated = 0, success = True, error_message = ''''\<rparr>) = length [1, 2, 3, 4, 5 :: int]"
proof -
  let ?r = "\<lparr>results = [1, 4, 9, 16, 25 :: int], items_processed = 5, threads_used = 2,
              memory_allocated = 0, success = True, error_message = ''''\<rparr>"
  have p: "process [1, 2, 3, 4, 5] ((default_config 4)\<lparr>concurrency := Parallel, max_threads := 2\<rparr>) square
      0 [2, 0, 1, 1, 0, 2, 7] 4 = Returns ?r"
    using process_parallel_5_2 by (simp add: process_def default_config_def)
  have s: "success ?r" by simp
  show ?thesis
    using success_implies_complete [OF p s] p by simp
qed

end
